theory Spec2Isabelle
  imports Main
begin

section \<open>The drunken-bishop visualiser of randomart.py\<close>

text \<open>
  Python integers are modelled as \<open>int\<close>, tuples as pairs, a \<open>str\<close> as \<open>string\<close>
  (one \<open>char\<close> per code point, so the model covers the code points below 256), the
  \<open>Counter\<close> as a map whose reads default to 0, and every exception as a value of
  \<open>error\<close> on the left of a sum.
\<close>

subsection \<open>Constants\<close>

type_synonym position = "int \<times> int"
type_synonym move = "int \<times> int"
type_synonym counter = "position \<rightharpoonup> int"

datatype error = AssertionError | ValueError | KeyError

definition NW :: move where "NW = (-1, -1)"
definition NE :: move where "NE = (1, -1)"
definition SW :: move where "SW = (-1, 1)"
definition SE :: move where "SE = (1, 1)"

definition DEFAULT_ROOM_SIZE :: "int \<times> int" where
  "DEFAULT_ROOM_SIZE = (17, 9)"

definition newline :: char where
  "newline = CHR 0x0A"

subsection \<open>The built-ins that hex\_to\_dirs calls\<close>

text \<open>
  Whitespace as \<open>int()\<close> strips it from a \<open>str\<close>: tab, line feed, vertical tab,
  form feed, carriage return and space, and of the code points from 127 to 255 the two
  that Unicode counts as whitespace (U+0085 and U+00A0).
\<close>

definition py_isspace :: "char \<Rightarrow> bool" where
  "py_isspace c = (c \<in> set [CHR 0x09, CHR 0x0A, CHR 0x0B, CHR 0x0C, CHR 0x0D, CHR 0x20,
                              CHR 0x85, CHR 0xA0])"

text \<open>The value of a digit: 0 to 9, then the letters of either case from 10; 37 otherwise.\<close>

definition digit_value :: "char \<Rightarrow> nat" where
  "digit_value c =
     (let n = (of_char c :: nat)
      in if 48 \<le> n \<and> n \<le> 57 then n - 48
         else if 97 \<le> n \<and> n \<le> 122 then n - 87
         else if 65 \<le> n \<and> n \<le> 90 then n - 55
         else 37)"

text \<open>
  The digit loop of \<open>int(s, base)\<close>: digits below the base, single underscores between
  them, stopping at the first other character. It returns the value, the number of digits
  and the rest of the string; a doubled or trailing underscore is an error.
\<close>

fun long_from_base :: "nat \<Rightarrow> string \<Rightarrow> bool \<Rightarrow> nat \<Rightarrow> int \<Rightarrow> error + (int \<times> nat \<times> string)" where
  "long_from_base base [] prev_us digits acc =
     (if prev_us then Inl ValueError else Inr (acc, digits, []))"
| "long_from_base base (c # cs) prev_us digits acc =
     (if c = CHR ''_'' then
        (if prev_us then Inl ValueError else long_from_base base cs True digits acc)
      else if digit_value c < base then
        long_from_base base cs False (Suc digits) (acc * int base + int (digit_value c))
      else if prev_us then Inl ValueError
      else Inr (acc, digits, c # cs))"

text \<open>
  \<open>int(s, 16)\<close>: leading whitespace, an optional sign, an optional \<open>0x\<close> prefix (with one
  underscore allowed after it), the digits, trailing whitespace, and nothing else.
\<close>

definition int16 :: "string \<Rightarrow> error + int" where
  "int16 s =
     (let s1 = dropWhile py_isspace s;
          (sign, s2) = (case s1 of
                          [] \<Rightarrow> (1, s1)
                        | c # cs \<Rightarrow> if c = CHR ''+'' then (1, cs)
                                    else if c = CHR ''-'' then (-1, cs)
                                    else (1, s1));
          s3 = (case s2 of
                  a # b # cs \<Rightarrow>
                    if a = CHR ''0'' \<and> (b = CHR ''x'' \<or> b = CHR ''X'') then
                      (case cs of
                         [] \<Rightarrow> cs
                       | u # us \<Rightarrow> if u = CHR ''_'' then us else cs)
                    else s2
                | _ \<Rightarrow> s2)
      in case s3 of
           [] \<Rightarrow> Inl ValueError
         | u # _ \<Rightarrow>
             if u = CHR ''_'' then Inl ValueError
             else (case long_from_base 16 s3 False 0 0 of
                     Inl e \<Rightarrow> Inl e
                   | Inr (v, digits, rest) \<Rightarrow>
                       if digits = 0 then Inl ValueError
                       else if dropWhile py_isspace rest \<noteq> [] then Inl ValueError
                       else Inr (sign * v)))"

text \<open>The binary digits of a natural number, most significant first.\<close>

fun bin_digits :: "nat \<Rightarrow> string" where
  "bin_digits n =
     (if n < 2 then [if n = 0 then CHR ''0'' else CHR ''1'']
      else bin_digits (n div 2) @ [if n mod 2 = 0 then CHR ''0'' else CHR ''1''])"

declare bin_digits.simps [simp del]

definition bin :: "int \<Rightarrow> string" where
  "bin n = (if n < 0 then ''-0b'' @ bin_digits (nat (- n)) else ''0b'' @ bin_digits (nat n))"

text \<open>\<open>s.zfill(width)\<close>: zeros on the left, after a leading sign when there is one.\<close>

definition zfill :: "nat \<Rightarrow> string \<Rightarrow> string" where
  "zfill width s =
     (if width \<le> length s then s
      else (case s of
              [] \<Rightarrow> replicate width (CHR ''0'')
            | c # cs \<Rightarrow>
                if c = CHR ''+'' \<or> c = CHR ''-''
                then c # replicate (width - length s) (CHR ''0'') @ cs
                else replicate (width - length s) (CHR ''0'') @ s))"

text \<open>\<open>[xs[i:i + 2] for i in range(0, len(xs), 2)]\<close>.\<close>

fun slices2 :: "'a list \<Rightarrow> 'a list list" where
  "slices2 [] = []"
| "slices2 [a] = [[a]]"
| "slices2 (a # b # cs) = [a, b] # slices2 cs"

text \<open>A loop whose body may raise: the first error ends it.\<close>

fun map_err :: "('a \<Rightarrow> error + 'b) \<Rightarrow> 'a list \<Rightarrow> error + 'b list" where
  "map_err f [] = Inr []"
| "map_err f (x # xs) =
     (case f x of
        Inl e \<Rightarrow> Inl e
      | Inr y \<Rightarrow> (case map_err f xs of Inl e \<Rightarrow> Inl e | Inr ys \<Rightarrow> Inr (y # ys)))"

subsection \<open>hex\_to\_dirs\<close>

definition direction_map :: "(string \<times> move) list" where
  "direction_map = [(''00'', NW), (''01'', NE), (''10'', SW), (''11'', SE)]"

definition direction_of :: "string \<Rightarrow> error + move" where
  "direction_of j = (case map_of direction_map j of None \<Rightarrow> Inl KeyError | Some d \<Rightarrow> Inr d)"

definition bin_byte :: "string \<Rightarrow> error + string" where
  "bin_byte pair =
     (case int16 pair of
        Inl e \<Rightarrow> Inl e
      | Inr decimal \<Rightarrow> Inr (zfill 8 (drop 2 (bin decimal))))"

definition hex_to_dirs :: "string \<Rightarrow> error + move list" where
  "hex_to_dirs hex_string =
     (if length hex_string mod 2 \<noteq> 0 then Inl AssertionError
      else (case map_err bin_byte (slices2 hex_string) of
              Inl e \<Rightarrow> Inl e
            | Inr bin_bytes \<Rightarrow>
                (let pairs = concat (map (\<lambda>byte. rev (slices2 byte)) bin_bytes)
                 in map_err direction_of pairs)))"

subsection \<open>get\_coin\_sym\<close>

definition coin_table :: "(int \<times> char) list" where
  "coin_table =
     [(0, CHR '' ''), (1, CHR ''.''), (2, CHR ''o''), (3, CHR ''+''), (4, CHR ''=''),
      (5, CHR ''*''), (6, CHR ''B''), (7, CHR ''O''), (8, CHR ''X''), (9, CHR ''@''),
      (10, CHR ''%''), (11, CHR ''&''), (12, CHR ''#''), (13, CHR ''/''), (14, CHR ''^''),
      (15, CHR ''S''), (16, CHR ''E'')]"

definition get_coin_sym :: "int \<Rightarrow> char" where
  "get_coin_sym coins = (case map_of coin_table coins of None \<Rightarrow> CHR ''!'' | Some g \<Rightarrow> g)"

subsection \<open>The class RandomArt\<close>

record RandomArt =
  hashalg :: "string option"
  room_size :: "int \<times> int"
  start :: position

text \<open>The constructor has no raising statement; its result is still a sum, as for every
  other entry point, so that a failure could be told from a success.\<close>

definition init :: "string option \<Rightarrow> int \<times> int \<Rightarrow> position option \<Rightarrow> error + RandomArt" where
  "init hashalg' room_size' start' =
     Inr \<lparr> hashalg = hashalg',
           room_size = room_size',
           start = (case start' of
                      Some s \<Rightarrow> s
                    | None \<Rightarrow> (fst room_size' div 2, snd room_size' div 2)) \<rparr>"

definition get_position :: "RandomArt \<Rightarrow> position \<Rightarrow> move \<Rightarrow> position" where
  "get_position self position move =
     (let (x, y) = position;
          (dir_x, dir_y) = move;
          (max_x, max_y) = (fst (room_size self) - 1, snd (room_size self) - 1);
          (new_x, new_y) = (x + dir_x, y + dir_y);
          new_x = min new_x max_x;
          new_y = min new_y max_y;
          new_x = max new_x 0;
          new_y = max new_y 0
      in (new_x, new_y))"

text \<open>Reading a \<open>Counter\<close>: a missing key reads as 0.\<close>

definition count :: "counter \<Rightarrow> position \<Rightarrow> int" where
  "count room p = (case room p of None \<Rightarrow> 0 | Some n \<Rightarrow> n)"

text \<open>The body of the loop of \<open>get_room\<close>, on the pair of the counter and the position.\<close>

definition walk_step :: "RandomArt \<Rightarrow> counter \<times> position \<Rightarrow> move \<Rightarrow> counter \<times> position" where
  "walk_step self st direction =
     (let (room, current_position) = st;
          current_position = get_position self current_position direction
      in (room(current_position \<mapsto> count room current_position + 1), current_position))"

definition walk :: "RandomArt \<Rightarrow> move list \<Rightarrow> counter \<times> position" where
  "walk self directions = foldl (walk_step self) (Map.empty, start self) directions"

definition get_room :: "RandomArt \<Rightarrow> string \<Rightarrow> error + counter" where
  "get_room self hex_string =
     (case hex_to_dirs hex_string of
        Inl e \<Rightarrow> Inl e
      | Inr directions \<Rightarrow>
          (let (room, current_position) = walk self directions;
               room = room(start self \<mapsto> 15);
               room = room(current_position \<mapsto> 16)
           in Inr room))"

text \<open>\<open>s.center(width, fillchar)\<close>, with the left margin as CPython computes it.\<close>

definition center :: "string \<Rightarrow> int \<Rightarrow> char \<Rightarrow> string" where
  "center s width fillchar =
     (if width \<le> int (length s) then s
      else (let marg = nat (width - int (length s));
                left = marg div 2 + (if odd marg \<and> odd width then 1 else 0)
            in replicate left fillchar @ s @ replicate (marg - left) fillchar))"

definition display :: "RandomArt \<Rightarrow> counter \<Rightarrow> string" where
  "display self room =
     (let (room_x, room_y) = room_size self;
          bottom = (if hashalg self \<noteq> Some '''' \<and> hashalg self \<noteq> None
                    then ''+'' @ center (''['' @ the (hashalg self) @ '']'') room_x (CHR ''-'') @ ''+''
                    else ''+'' @ replicate (nat room_x) (CHR ''-'') @ ''+'');
          top = ''+'' @ replicate (nat room_x) (CHR ''-'') @ ''+'' @ [newline];
          body = concat (map (\<lambda>y. ''|''
                                   @ map (\<lambda>x. get_coin_sym (count room (x, y))) [0..room_x - 1]
                                   @ ''|'' @ [newline])
                             [0..room_y - 1])
      in top @ body @ bottom)"

definition call :: "RandomArt \<Rightarrow> string \<Rightarrow> error + string" where
  "call self hex_string =
     (case get_room self hex_string of
        Inl e \<Rightarrow> Inl e
      | Inr room \<Rightarrow> Inr (display self room))"

subsection \<open>Reading the rendered text\<close>

text \<open>\<open>art.split('\n')\<close>, as the caller of \<open>display\<close> reads the lines.\<close>

fun split_lines :: "string \<Rightarrow> string list" where
  "split_lines [] = [[]]"
| "split_lines (c # cs) =
     (if c = newline then [] # split_lines cs
      else (case split_lines cs of
              [] \<Rightarrow> [[c]]
            | l # ls \<Rightarrow> (c # l) # ls))"

text \<open>The character that the text shows for the cell \<open>(x, y)\<close>: column \<open>x + 1\<close> of line
  \<open>y + 1\<close>, inside the border.\<close>

definition cell_at :: "string \<Rightarrow> position \<Rightarrow> char option" where
  "cell_at text p =
     (let (x, y) = p; ls = split_lines text
      in if 0 \<le> y \<and> nat y + 1 < length ls \<and> 0 \<le> x \<and> nat x + 1 < length (ls ! (nat y + 1))
         then Some (ls ! (nat y + 1) ! (nat x + 1))
         else None)"

text \<open>The pieces of the text of \<open>display\<close>: one row of the body without its line end,
  and the bottom border.\<close>

definition row_text :: "counter \<Rightarrow> int \<Rightarrow> int \<Rightarrow> string" where
  "row_text room room_x y = ''|'' @ map (\<lambda>x. get_coin_sym (count room (x, y))) [0..room_x - 1] @ ''|''"

definition bottom_text :: "RandomArt \<Rightarrow> string" where
  "bottom_text self =
     (if hashalg self \<noteq> Some '''' \<and> hashalg self \<noteq> None
      then ''+'' @ center (''['' @ the (hashalg self) @ '']'') (fst (room_size self)) (CHR ''-'') @ ''+''
      else ''+'' @ replicate (nat (fst (room_size self))) (CHR ''-'') @ ''+'')"

text \<open>The room of the first scenario: 17 by 9, no label, start at the centre.\<close>

definition scenario_art :: RandomArt where
  "scenario_art = \<lparr> hashalg = None, room_size = DEFAULT_ROOM_SIZE, start = (8, 4) \<rparr>"

text \<open>The same room with a label of 18 characters.\<close>

definition labelled_art :: RandomArt where
  "labelled_art = \<lparr> hashalg = Some ''ssh-ed25519-sha256'', room_size = DEFAULT_ROOM_SIZE, start = (8, 4) \<rparr>"

text \<open>The same room with a label that fits and has a line break in it.\<close>

definition broken_art :: RandomArt where
  "broken_art = \<lparr> hashalg = Some [CHR ''a'', newline, CHR ''b''], room_size = DEFAULT_ROOM_SIZE, start = (8, 4) \<rparr>"

definition in_room :: "int \<times> int \<Rightarrow> position \<Rightarrow> bool" where
  "in_room dims p = (0 \<le> fst p \<and> fst p < fst dims \<and> 0 \<le> snd p \<and> snd p < snd dims)"

subsection \<open>The decoder as the specification words it\<close>

text \<open>
  The reference decoder of the specification, written from its words and not from the
  code: bytes of two hex digits from left to right, each byte as 8 bits, the bits in
  four groups of two, the groups of a byte reversed, each group a move.
\<close>

definition is_hex_digit :: "char \<Rightarrow> bool" where
  "is_hex_digit c = (c \<in> set ''0123456789abcdefABCDEF'')"

definition hex_digit_value :: "char \<Rightarrow> nat" where
  "hex_digit_value c =
     (case map_of [(CHR ''0'', 0), (CHR ''1'', 1), (CHR ''2'', 2), (CHR ''3'', 3),
                   (CHR ''4'', 4), (CHR ''5'', 5), (CHR ''6'', 6), (CHR ''7'', 7),
                   (CHR ''8'', 8), (CHR ''9'', 9), (CHR ''a'', 10), (CHR ''b'', 11),
                   (CHR ''c'', 12), (CHR ''d'', 13), (CHR ''e'', 14), (CHR ''f'', 15),
                   (CHR ''A'', 10), (CHR ''B'', 11), (CHR ''C'', 12), (CHR ''D'', 13),
                   (CHR ''E'', 14), (CHR ''F'', 15)] c of
        None \<Rightarrow> 0
      | Some v \<Rightarrow> v)"

definition byte_bits :: "nat \<Rightarrow> bool list" where
  "byte_bits n = map (\<lambda>i. odd (n div 2 ^ i)) [7, 6, 5, 4, 3, 2, 1, 0]"

fun bit_groups :: "bool list \<Rightarrow> (bool \<times> bool) list" where
  "bit_groups (hi # lo # bs) = (hi, lo) # bit_groups bs"
| "bit_groups _ = []"

definition group_move :: "bool \<times> bool \<Rightarrow> move" where
  "group_move g =
     (if \<not> fst g \<and> \<not> snd g then NW
      else if \<not> fst g \<and> snd g then NE
      else if fst g \<and> \<not> snd g then SW
      else SE)"



text \<open>What the two loops of \<open>hex_to_dirs\<close> do with one slice of the string.\<close>

definition pair_dirs :: "string \<Rightarrow> error + move list" where
  "pair_dirs p =
     (case bin_byte p of
        Inl e \<Rightarrow> Inl e
      | Inr byte \<Rightarrow> map_err direction_of (rev (slices2 byte)))"

text \<open>The character of a bit, and the \<open>k\<close> low bits of a number as characters, most
  significant first.\<close>

definition bit_char :: "bool \<Rightarrow> char" where
  "bit_char b = (if b then CHR ''1'' else CHR ''0'')"

definition bits_msb :: "nat \<Rightarrow> nat \<Rightarrow> string" where
  "bits_msb k n = map (\<lambda>i. bit_char (odd (n div 2 ^ i))) (rev [0..<k])"

text \<open>
  The two-character slices that the decoder of the code accepts: two hex digits, or one
  hex digit after or before a whitespace character or after a plus sign, or \<open>-0\<close>.
\<close>

definition accepted_pair :: "string \<Rightarrow> bool" where
  "accepted_pair p =
     (case p of
        [a, b] \<Rightarrow>
          (is_hex_digit a \<and> is_hex_digit b)
          \<or> (py_isspace a \<and> is_hex_digit b)
          \<or> (is_hex_digit a \<and> py_isspace b)
          \<or> (a = CHR ''+'' \<and> is_hex_digit b)
          \<or> (a = CHR ''-'' \<and> b = CHR ''0'')
      | _ \<Rightarrow> False)"

section \<open>Properties\<close>

subsection \<open>The glyph table\<close>

lemma coin_table_values:
  "get_coin_sym 0 = CHR '' ''" "get_coin_sym 1 = CHR ''.''" "get_coin_sym 2 = CHR ''o''"
  "get_coin_sym 3 = CHR ''+''" "get_coin_sym 4 = CHR ''=''" "get_coin_sym 5 = CHR ''*''"
  "get_coin_sym 6 = CHR ''B''" "get_coin_sym 7 = CHR ''O''" "get_coin_sym 8 = CHR ''X''"
  "get_coin_sym 9 = CHR ''@''" "get_coin_sym 10 = CHR ''%''" "get_coin_sym 11 = CHR ''&''"
  "get_coin_sym 12 = CHR ''#''" "get_coin_sym 13 = CHR ''/''" "get_coin_sym 14 = CHR ''^''"
  "get_coin_sym 15 = CHR ''S''" "get_coin_sym 16 = CHR ''E''"
  by (simp_all add: get_coin_sym_def coin_table_def)

lemma get_coin_sym_fallback: "n < 0 \<or> 16 < n \<Longrightarrow> get_coin_sym n = CHR ''!''"
  by (auto simp: get_coin_sym_def coin_table_def)

text \<open>
  C9: \<open>get_coin_sym\<close> is a total function on the integers. The counts 0 to 16 give the
  glyphs of the fixed table, in its order, and every other integer, the negative ones
  included, gives the fallback \<open>!\<close>.
\<close>

theorem get_coin_sym_total:
  "map get_coin_sym [0, 1, 2, 3, 4, 5, 6, 7, 8, 9, 10, 11, 12, 13, 14, 15, 16]
     = '' .o+=*BOX@%&#/^SE''
   \<and> (\<forall>n. n < 0 \<or> 16 < n \<longrightarrow> get_coin_sym n = CHR ''!'')"
  by (simp add: coin_table_values get_coin_sym_fallback)

theorem get_coin_sym_total_witness:
  "((-3::int) < 0 \<or> 16 < (-3::int)) \<and> get_coin_sym (-3) = CHR ''!''
   \<and> ((17::int) < 0 \<or> 16 < (17::int)) \<and> get_coin_sym 17 = CHR ''!''
   \<and> get_coin_sym 9 = CHR ''@''"
  using get_coin_sym_total by simp

subsection \<open>The walk\<close>

lemma get_position_clamp:
  "room_size self = (w, h) \<Longrightarrow>
   get_position self (x, y) (dx, dy) = (max (min (x + dx) (w - 1)) 0, max (min (y + dy) (h - 1)) 0)"
  by (simp add: get_position_def)

lemma get_position_in_room:
  assumes "room_size self = (w, h)" "1 \<le> w" "1 \<le> h"
  shows "in_room (w, h) (get_position self p d)"
proof -
  obtain x y where p: "p = (x, y)" by (cases p)
  obtain dx dy where d: "d = (dx, dy)" by (cases d)
  show ?thesis
    using assms unfolding p d by (auto simp: get_position_clamp in_room_def)
qed

lemma walk_step_snd: "snd (walk_step self st d) = get_position self (snd st) d"
  by (cases st) (simp add: walk_step_def Let_def)

lemma walk_step_fst:
  "fst (walk_step self st d) =
     (fst st)(get_position self (snd st) d \<mapsto> count (fst st) (get_position self (snd st) d) + 1)"
  by (cases st) (simp add: walk_step_def Let_def)

lemma walk_step_dom:
  "dom (fst (walk_step self st d)) = insert (get_position self (snd st) d) (dom (fst st))"
  by (simp add: walk_step_fst)

lemma foldl_walk_invariant:
  assumes "room_size self = (w, h)" "1 \<le> w" "1 \<le> h"
    and "in_room (w, h) (snd st)" "\<forall>q \<in> dom (fst st). in_room (w, h) q"
  shows "in_room (w, h) (snd (foldl (walk_step self) st ds))
         \<and> (\<forall>q \<in> dom (fst (foldl (walk_step self) st ds)). in_room (w, h) q)"
  using assms(4,5)
proof (induction ds arbitrary: st)
  case Nil
  then show ?case by simp
next
  case (Cons d ds)
  have step: "in_room (w, h) (get_position self (snd st) d)"
    using assms(1-3) by (rule get_position_in_room)
  show ?case
    unfolding foldl_Cons
  proof (rule Cons.IH)
    show "in_room (w, h) (snd (walk_step self st d))"
      using step by (simp add: walk_step_snd)
    show "\<forall>q\<in>dom (fst (walk_step self st d)). in_room (w, h) q"
      using step Cons.prems(2) by (simp add: walk_step_dom)
  qed
qed

text \<open>
  C3: in a room at least 1 wide and 1 high, with the start inside it, every position that
  \<open>get_position\<close> produces is inside the room, and so is the position of the walk after
  every step (after every prefix of the moves, whatever the moves are), as is every cell
  that the counter holds.
\<close>

theorem walk_in_bounds:
  assumes "room_size self = (w, h)" "1 \<le> w" "1 \<le> h" "in_room (w, h) (start self)"
  shows "in_room (w, h) (get_position self p d)
         \<and> (\<forall>n \<le> length ds. in_room (w, h) (snd (walk self (take n ds))))
         \<and> (\<forall>q \<in> dom (fst (walk self ds)). in_room (w, h) q)"
proof -
  have inv: "in_room (w, h) (snd (walk self es)) \<and> (\<forall>q \<in> dom (fst (walk self es)). in_room (w, h) q)"
    for es
    unfolding walk_def
    using assms by (intro foldl_walk_invariant) simp_all
  show ?thesis
    using inv get_position_in_room [OF assms(1-3)] by blast
qed

theorem walk_in_bounds_witness:
  "room_size scenario_art = (17, 9) \<and> (1::int) \<le> 17 \<and> (1::int) \<le> 9
   \<and> in_room (17, 9) (start scenario_art)
   \<and> in_room (17, 9) (get_position scenario_art (0, 0) NW)
   \<and> in_room (17, 9) (snd (walk scenario_art (take 3 [NW, SE, SE, NE])))
   \<and> in_room (17, 9) (snd (walk scenario_art [NW, SE, SE, NE]))"
proof -
  have r: "room_size scenario_art = (17, 9)"
    by (simp add: scenario_art_def DEFAULT_ROOM_SIZE_def)
  have s: "in_room (17, 9) (start scenario_art)"
    by (simp add: scenario_art_def in_room_def)
  have l: "(3::nat) \<le> length [NW, SE, SE, NE]" "(4::nat) \<le> length [NW, SE, SE, NE]"
    by simp_all
  show ?thesis
    using walk_in_bounds [OF r _ _ s, of "(0, 0)" NW "[NW, SE, SE, NE]"] r s l
    by (metis one_le_numeral order_refl take_all)
qed

lemma walk_step_count:
  "count (fst (walk_step self st d)) q =
     (if q = get_position self (snd st) d then count (fst st) q + 1 else count (fst st) q)"
  by (simp add: walk_step_fst count_def)

text \<open>
  C8: at a corner cell, with one of the four moves, each axis is clamped on its own as
  \<open>max 0 (min candidate (dimension - 1))\<close>; on an axis where the move points out of the
  room the coordinate stays what it was, with no bounce; and the step adds 1 to the count
  of the cell it lands on (the corner itself when both axes are clamped) and changes no
  other count.
\<close>

theorem corner_clamp:
  assumes "room_size self = (w, h)" "1 \<le> w" "1 \<le> h"
    and "cx = 0 \<or> cx = w - 1" "cy = 0 \<or> cy = h - 1"
    and "(dx, dy) \<in> {NW, NE, SW, SE}"
  shows "get_position self (cx, cy) (dx, dy)
           = (max 0 (min (cx + dx) (w - 1)), max 0 (min (cy + dy) (h - 1)))
         \<and> (cx + dx < 0 \<or> w - 1 < cx + dx \<longrightarrow> fst (get_position self (cx, cy) (dx, dy)) = cx)
         \<and> (cy + dy < 0 \<or> h - 1 < cy + dy \<longrightarrow> snd (get_position self (cx, cy) (dx, dy)) = cy)
         \<and> snd (walk_step self (room, (cx, cy)) (dx, dy)) = get_position self (cx, cy) (dx, dy)
         \<and> count (fst (walk_step self (room, (cx, cy)) (dx, dy))) (get_position self (cx, cy) (dx, dy))
             = count room (get_position self (cx, cy) (dx, dy)) + 1
         \<and> (\<forall>q. q \<noteq> get_position self (cx, cy) (dx, dy) \<longrightarrow>
                count (fst (walk_step self (room, (cx, cy)) (dx, dy))) q = count room q)"
proof -
  have d: "(dx = 1 \<or> dx = -1) \<and> (dy = 1 \<or> dy = -1)"
    using assms(6) by (auto simp: NW_def NE_def SW_def SE_def)
  have pos: "get_position self (cx, cy) (dx, dy)
           = (max 0 (min (cx + dx) (w - 1)), max 0 (min (cy + dy) (h - 1)))"
    using assms(1) by (simp add: get_position_clamp max.commute)
  have x: "cx + dx < 0 \<or> w - 1 < cx + dx \<longrightarrow> max 0 (min (cx + dx) (w - 1)) = cx"
    using assms(2,4) d by auto
  have y: "cy + dy < 0 \<or> h - 1 < cy + dy \<longrightarrow> max 0 (min (cy + dy) (h - 1)) = cy"
    using assms(3,5) d by auto
  show ?thesis
    using x y by (simp add: pos walk_step_snd walk_step_count)
qed

theorem corner_clamp_witness:
  "room_size scenario_art = (17, 9) \<and> (1::int) \<le> 17 \<and> (1::int) \<le> 9
   \<and> ((0::int) = 0 \<or> (0::int) = 17 - 1) \<and> ((0::int) = 0 \<or> (0::int) = 9 - 1)
   \<and> (-1, -1) \<in> {NW, NE, SW, SE}
   \<and> get_position scenario_art (0, 0) (-1, -1) = (0, 0)
   \<and> count (fst (walk_step scenario_art (Map.empty, (0, 0)) (-1, -1))) (0, 0) = 1"
proof -
  have r: "room_size scenario_art = (17, 9)"
    by (simp add: scenario_art_def DEFAULT_ROOM_SIZE_def)
  have m: "((-1, -1) :: move) \<in> {NW, NE, SW, SE}"
    by (simp add: NW_def)
  show ?thesis
    using corner_clamp [OF r _ _ _ _ m, of 0 0 Map.empty] r m
    apply simp
    apply (elim conjE)
    apply (simp add: count_def)
    done
qed

subsection \<open>The lines of the rendered text\<close>

lemma split_lines_nonempty: "split_lines s \<noteq> []"
  by (induction s) (auto split: list.splits)

lemma split_lines_no_newline: "newline \<notin> set s \<Longrightarrow> split_lines s = [s]"
  by (induction s) auto

lemma split_lines_append:
  "newline \<notin> set a \<Longrightarrow> split_lines (a @ newline # b) = a # split_lines b"
  by (induction a) auto

lemma split_lines_rows:
  "\<forall>r \<in> set rows. newline \<notin> set r \<Longrightarrow>
   split_lines (concat (map (\<lambda>r. r @ [newline]) rows) @ b) = rows @ split_lines b"
proof (induction rows)
  case Nil
  then show ?case by simp
next
  case (Cons r rows)
  have "split_lines (r @ newline # (concat (map (\<lambda>r. r @ [newline]) rows) @ b))
          = r # split_lines (concat (map (\<lambda>r. r @ [newline]) rows) @ b)"
    using Cons.prems by (intro split_lines_append) simp
  then show ?case
    using Cons by simp
qed

lemma get_coin_sym_range: "get_coin_sym n \<in> set '' .o+=*BOX@%&#/^SE!''"
  by (auto simp: get_coin_sym_def coin_table_def)

lemma get_coin_sym_not_newline: "get_coin_sym n \<noteq> newline"
  using get_coin_sym_range [of n] by (auto simp: newline_def)

lemma display_rows:
  "display self room =
     (''+'' @ replicate (nat (fst (room_size self))) (CHR ''-'') @ ''+'') @ newline #
     (concat (map (\<lambda>r. r @ [newline]) (map (row_text room (fst (room_size self))) [0..snd (room_size self) - 1]))
      @ bottom_text self)"
  by (cases "room_size self") (simp add: display_def row_text_def bottom_text_def map_concat comp_def Let_def)

lemma row_text_no_newline: "newline \<notin> set (row_text room w y)"
proof -
  have "newline \<notin> set (map (\<lambda>x. get_coin_sym (count room (x, y))) [0..w - 1])"
    using get_coin_sym_not_newline by (metis (no_types, lifting) imageE list.set_map)
  then show ?thesis
    by (simp add: row_text_def newline_def)
qed

lemma top_no_newline: "newline \<notin> set (''+'' @ replicate n (CHR ''-'') @ ''+'')"
  by (auto simp: newline_def)

lemma split_lines_display:
  "split_lines (display self room) =
     (''+'' @ replicate (nat (fst (room_size self))) (CHR ''-'') @ ''+'')
     # map (row_text room (fst (room_size self))) [0..snd (room_size self) - 1]
     @ split_lines (bottom_text self)"
  unfolding display_rows
  by (subst split_lines_append [OF top_no_newline], subst split_lines_rows)
     (simp_all add: row_text_no_newline)

lemma length_upto_nat: "length [0..n - 1] = nat n"
  by simp

lemma nth_upto_nat: "0 \<le> x \<Longrightarrow> x < n \<Longrightarrow> [0..n - 1] ! nat x = x"
  by simp

lemma display_cell:
  assumes "in_room (room_size self) (x, y)"
  shows "cell_at (display self room) (x, y) = Some (get_coin_sym (count room (x, y)))"
proof -
  obtain w h where wh: "room_size self = (w, h)" by (cases "room_size self")
  have b: "0 \<le> x" "x < w" "0 \<le> y" "y < h"
    using assms by (simp_all add: in_room_def wh)
  let ?ls = "split_lines (display self room)"
  have len: "Suc (nat y) < length ?ls"
    using b split_lines_nonempty [of "bottom_text self"]
    by (cases "split_lines (bottom_text self)") (simp_all add: split_lines_display wh)
  have row: "?ls ! Suc (nat y) = row_text room w y"
    using b by (simp add: split_lines_display wh nth_append nth_upto_nat)
  have cell: "row_text room w y ! Suc (nat x) = get_coin_sym (count room (x, y))"
    using b by (simp add: row_text_def nth_append nth_upto_nat)
  have rlen: "Suc (nat x) < length (row_text room w y)"
    using b by (simp add: row_text_def)
  show ?thesis
    using b len rlen by (simp add: cell_at_def Let_def row cell)
qed

subsection \<open>The sentinels\<close>

lemma hex_00: "hex_to_dirs ''00'' = Inr [NW, NW, NW, NW]"
  by code_simp

lemma hex_0f: "hex_to_dirs ''0f'' = Inr [SE, SE, NW, NW]"
  by code_simp

lemma hex_empty: "hex_to_dirs '''' = Inr []"
  by (simp add: hex_to_dirs_def)

lemma get_room_decoded:
  "hex_to_dirs hex_string = Inr ds \<Longrightarrow>
   get_room self hex_string = Inr ((fst (walk self ds))(start self \<mapsto> 15, snd (walk self ds) \<mapsto> 16))"
  by (simp add: get_room_def split_beta Let_def)

lemma get_room_error: "hex_to_dirs hex_string = Inl e \<Longrightarrow> get_room self hex_string = Inl e"
  by (simp add: get_room_def)

text \<open>
  C4: when the string decodes, \<open>get_room\<close> returns the counter of the walk with the start
  cell set to 15 and then the cell of the end position set to 16, whatever the walk had
  counted there. The end cell holds 16; the start cell holds 15 when it is another cell;
  when the two coincide the cell holds 16 and its glyph is \<open>E\<close>, not \<open>S\<close>, also in the
  rendered text when the cell is inside the room.
\<close>

theorem sentinel_overwrite:
  assumes "hex_to_dirs hex_string = Inr ds" "walk self ds = (visited, end_position)"
  shows "\<exists>room. get_room self hex_string = Inr room
           \<and> room = visited(start self \<mapsto> 15, end_position \<mapsto> 16)
           \<and> count room end_position = 16
           \<and> (start self \<noteq> end_position \<longrightarrow> count room (start self) = 15)
           \<and> (start self = end_position \<longrightarrow>
                count room (start self) = 16
                \<and> get_coin_sym (count room (start self)) = CHR ''E''
                \<and> get_coin_sym (count room (start self)) \<noteq> CHR ''S''
                \<and> (in_room (room_size self) (start self) \<longrightarrow>
                     cell_at (display self room) (start self) = Some (CHR ''E'')))"
proof -
  let ?room = "visited(start self \<mapsto> 15, end_position \<mapsto> 16)"
  have g: "get_room self hex_string = Inr ?room"
    using assms by (simp add: get_room_decoded)
  have e: "count ?room end_position = 16"
    by (simp add: count_def)
  have s: "start self \<noteq> end_position \<Longrightarrow> count ?room (start self) = 15"
    by (simp add: count_def)
  have d: "in_room (room_size self) (start self) \<Longrightarrow>
           cell_at (display self ?room) (start self) = Some (get_coin_sym (count ?room (start self)))"
    using display_cell [of self "fst (start self)" "snd (start self)" ?room] by simp
  show ?thesis
    using g e s d by (auto simp: coin_table_values)
qed

lemma walk_0f: "walk scenario_art [SE, SE, NW, NW] = ([(9, 5) \<mapsto> 2, (10, 6) \<mapsto> 1, (8, 4) \<mapsto> 1], (8, 4))"
  by (simp add: walk_def walk_step_def Let_def scenario_art_def DEFAULT_ROOM_SIZE_def NW_def SE_def get_position_def count_def fun_upd_twist)

theorem sentinel_overwrite_witness:
  "hex_to_dirs ''0f'' = Inr [SE, SE, NW, NW]
   \<and> walk scenario_art [SE, SE, NW, NW] = ([(9, 5) \<mapsto> 2, (10, 6) \<mapsto> 1, (8, 4) \<mapsto> 1], (8, 4))
   \<and> get_room scenario_art ''0f'' = Inr [(9, 5) \<mapsto> 2, (10, 6) \<mapsto> 1, (8, 4) \<mapsto> 16]
   \<and> cell_at (display scenario_art [(9, 5) \<mapsto> 2, (10, 6) \<mapsto> 1, (8, 4) \<mapsto> 16]) (8, 4) = Some (CHR ''E'')"
proof -
  have s: "start scenario_art = (8, 4)" "in_room (room_size scenario_art) (8, 4)"
    by (simp_all add: scenario_art_def DEFAULT_ROOM_SIZE_def in_room_def)
  show ?thesis
    using sentinel_overwrite [OF hex_0f walk_0f] s hex_0f walk_0f
    by auto
qed

text \<open>
  C10: the empty string decodes to no moves, the walk takes no step and ends on the start
  position, that cell holds 16 and shows \<open>E\<close>, and every other cell reads as 0 and shows a
  space, in the counter and in the rendered text.
\<close>

theorem empty_hex:
  "hex_to_dirs '''' = Inr []
   \<and> walk self [] = (Map.empty, start self)
   \<and> get_room self '''' = Inr [start self \<mapsto> 16]
   \<and> count [start self \<mapsto> 16] (start self) = 16
   \<and> get_coin_sym (count [start self \<mapsto> 16] (start self)) = CHR ''E''
   \<and> (\<forall>p. p \<noteq> start self \<longrightarrow> get_coin_sym (count [start self \<mapsto> 16] p) = CHR '' '')
   \<and> (\<forall>p. in_room (room_size self) p \<longrightarrow>
          cell_at (display self [start self \<mapsto> 16]) p
            = Some (if p = start self then CHR ''E'' else CHR '' ''))"
proof -
  have w: "walk self [] = (Map.empty, start self)"
    by (simp add: walk_def)
  have g: "get_room self '''' = Inr [start self \<mapsto> 16]"
    using get_room_decoded [OF hex_empty, of self] by (simp add: w)
  have c: "count [start self \<mapsto> 16] p = (if p = start self then 16 else 0)" for p
    by (simp add: count_def)
  have d: "in_room (room_size self) p \<Longrightarrow>
           cell_at (display self [start self \<mapsto> 16]) p
             = Some (get_coin_sym (count [start self \<mapsto> 16] p))" for p
    using display_cell [of self "fst p" "snd p"] by simp
  show ?thesis
    using hex_empty w g d by (simp add: c coin_table_values)
qed

theorem empty_hex_witness:
  "in_room (room_size scenario_art) (0, 0) \<and> (0, 0) \<noteq> start scenario_art
   \<and> get_coin_sym (count [start scenario_art \<mapsto> 16] (0, 0)) = CHR '' ''
   \<and> cell_at (display scenario_art [start scenario_art \<mapsto> 16]) (0, 0) = Some (CHR '' '')
   \<and> in_room (room_size scenario_art) (8, 4)
   \<and> cell_at (display scenario_art [start scenario_art \<mapsto> 16]) (8, 4) = Some (CHR ''E'')"
proof -
  have s: "start scenario_art = (8, 4)" "in_room (room_size scenario_art) (8, 4)"
    "in_room (room_size scenario_art) (0, 0)"
    by (simp_all add: scenario_art_def DEFAULT_ROOM_SIZE_def in_room_def)
  show ?thesis
    using empty_hex [of scenario_art] s by simp
qed

subsection \<open>The first scenario\<close>

lemma walk_00: "map (\<lambda>n. snd (walk scenario_art (take n [NW, NW, NW, NW]))) [1, 2, 3, 4]
           = [(7, 3), (6, 2), (5, 1), (4, 0)]"
  by (simp add: walk_def walk_step_snd scenario_art_def DEFAULT_ROOM_SIZE_def NW_def get_position_def)

lemma walk_00_end: "walk scenario_art [NW, NW, NW, NW] = ([(7, 3) \<mapsto> 1, (6, 2) \<mapsto> 1, (5, 1) \<mapsto> 1, (4, 0) \<mapsto> 1], (4, 0))"
  by (simp add: walk_def walk_step_def Let_def scenario_art_def DEFAULT_ROOM_SIZE_def NW_def get_position_def count_def)

lemma room_00: "get_room scenario_art ''00'' = Inr [(7, 3) \<mapsto> 1, (6, 2) \<mapsto> 1, (5, 1) \<mapsto> 1, (8, 4) \<mapsto> 15, (4, 0) \<mapsto> 16]"
  using get_room_decoded [OF hex_00, of scenario_art]
  by (simp add: walk_00_end) (simp add: scenario_art_def)

lemma text_00: "display scenario_art [(7, 3) \<mapsto> 1, (6, 2) \<mapsto> 1, (5, 1) \<mapsto> 1, (8, 4) \<mapsto> 15, (4, 0) \<mapsto> 16]
   = ''+-----------------+'' @ [newline] @
     ''|    E            |'' @ [newline] @
     ''|     .           |'' @ [newline] @
     ''|      .          |'' @ [newline] @
     ''|       .         |'' @ [newline] @
     ''|        S        |'' @ [newline] @
     ''|                 |'' @ [newline] @
     ''|                 |'' @ [newline] @
     ''|                 |'' @ [newline] @
     ''|                 |'' @ [newline] @
     ''+-----------------+''"
  by code_simp

text \<open>
  C2: for the string \<open>00\<close> in the room of 17 by 9 with the start at (8, 4), which is also
  the default start: the moves are four times NW, the walk visits (7, 3), (6, 2), (5, 1)
  and (4, 0) in this order and ends at (4, 0), and the rendered text shows \<open>S\<close> at (8, 4)
  and \<open>E\<close> at (4, 0).
\<close>

theorem scenario_a:
  "init None (17, 9) (Some (8, 4)) = Inr scenario_art
   \<and> init None (17, 9) None = Inr scenario_art
   \<and> hex_to_dirs ''00'' = Inr [NW, NW, NW, NW]
   \<and> map (\<lambda>n. snd (walk scenario_art (take n [NW, NW, NW, NW]))) [1, 2, 3, 4]
       = [(7, 3), (6, 2), (5, 1), (4, 0)]
   \<and> snd (walk scenario_art [NW, NW, NW, NW]) = (4, 0)
   \<and> (\<exists>room. get_room scenario_art ''00'' = Inr room
         \<and> cell_at (display scenario_art room) (8, 4) = Some (CHR ''S'')
         \<and> cell_at (display scenario_art room) (4, 0) = Some (CHR ''E'')
         \<and> call scenario_art ''00'' = Inr (display scenario_art room)
         \<and> display scenario_art room
             = ''+-----------------+'' @ [newline] @
               ''|    E            |'' @ [newline] @
               ''|     .           |'' @ [newline] @
               ''|      .          |'' @ [newline] @
               ''|       .         |'' @ [newline] @
               ''|        S        |'' @ [newline] @
               ''|                 |'' @ [newline] @
               ''|                 |'' @ [newline] @
               ''|                 |'' @ [newline] @
               ''|                 |'' @ [newline] @
               ''+-----------------+'')"
proof -
  let ?room = "[(7, 3) \<mapsto> 1, (6, 2) \<mapsto> 1, (5, 1) \<mapsto> 1, (8, 4) \<mapsto> 15, (4, 0) \<mapsto> (16::int)]"
  have i: "init None (17, 9) (Some (8, 4)) = Inr scenario_art"
    "init None (17, 9) None = Inr scenario_art"
    by (simp_all add: init_def scenario_art_def DEFAULT_ROOM_SIZE_def)
  have r: "in_room (room_size scenario_art) (8, 4)" "in_room (room_size scenario_art) (4, 0)"
    by (simp_all add: scenario_art_def DEFAULT_ROOM_SIZE_def in_room_def)
  have s: "cell_at (display scenario_art ?room) (8, 4) = Some (CHR ''S'')"
    by (simp add: display_cell [OF r(1)] count_def coin_table_values)
  have e: "cell_at (display scenario_art ?room) (4, 0) = Some (CHR ''E'')"
    by (simp add: display_cell [OF r(2)] count_def coin_table_values)
  have c: "call scenario_art ''00'' = Inr (display scenario_art ?room)"
    by (simp add: call_def room_00)
  show ?thesis
    using i hex_00 walk_00 walk_00_end room_00 s e c text_00
    by (intro conjI exI [of _ ?room]) simp_all
qed

subsection \<open>The shape of the rendered text\<close>

text \<open>
  C7 as stated fails, in two ways. A label longer than the room is wide minus the two
  brackets is not cut by \<open>center\<close>, and the bottom line gets longer than the others: in the
  room of 17 by 9 with a label of 18 characters the last line has 22 characters, not 19.
  A label with a line break breaks the bottom border: in the same room with the label of
  the three characters a, line feed, b, which fits in the width, the text has 12 lines,
  not 11.
\<close>

theorem display_lines_counterexample:
  "fst (room_size labelled_art) = 17 \<and> snd (room_size labelled_art) = 9
   \<and> last (split_lines (display labelled_art Map.empty)) = ''+[ssh-ed25519-sha256]+''
   \<and> int (length (last (split_lines (display labelled_art Map.empty)))) \<noteq> 17 + 2
   \<and> fst (room_size broken_art) = 17 \<and> snd (room_size broken_art) = 9
   \<and> length (split_lines (display broken_art Map.empty)) = 12
   \<and> int (length (split_lines (display broken_art Map.empty))) \<noteq> 9 + 2"
  by code_simp

lemma center_length: "int (length s) \<le> w \<Longrightarrow> int (length (center s w c)) = w"
  by (auto simp: center_def Let_def)

lemma center_no_newline: "newline \<notin> set s \<Longrightarrow> c \<noteq> newline \<Longrightarrow> newline \<notin> set (center s w c)"
  by (auto simp: center_def Let_def)

lemma center_long: "w < int (length s) \<Longrightarrow> center s w c = s"
  by (simp add: center_def)

lemma set_center: "set s \<subseteq> set (center s w c)"
  by (auto simp: center_def Let_def)

lemma split_lines_newline: "newline \<in> set s \<Longrightarrow> 2 \<le> length (split_lines s)"
proof (induction s)
  case Nil
  then show ?case by simp
next
  case (Cons c cs)
  show ?case
  proof (cases "c = newline")
    case True
    then show ?thesis
      using split_lines_nonempty [of cs] by (cases "split_lines cs") simp_all
  next
    case False
    with Cons have "2 \<le> length (split_lines cs)"
      by simp
    then show ?thesis
      using False by (cases "split_lines cs") simp_all
  qed
qed

lemma bottom_text_plain:
  "hashalg self = None \<or> hashalg self = Some '''' \<Longrightarrow>
   bottom_text self = ''+'' @ replicate (nat (fst (room_size self))) (CHR ''-'') @ ''+''"
  by (auto simp: bottom_text_def)

lemma bottom_text_label:
  "hashalg self = Some l \<Longrightarrow> l \<noteq> [] \<Longrightarrow>
   bottom_text self = ''+'' @ center (''['' @ l @ '']'') (fst (room_size self)) (CHR ''-'') @ ''+''"
  by (simp add: bottom_text_def)

lemma bottom_text_ok:
  assumes "room_size self = (w, h)" "0 \<le> w"
    and "hashalg self = None \<or> hashalg self = Some ''''
         \<or> (\<exists>l. hashalg self = Some l \<and> int (length l) + 2 \<le> w \<and> newline \<notin> set l)"
  shows "newline \<notin> set (bottom_text self) \<and> int (length (bottom_text self)) = w + 2"
proof (cases "hashalg self = None \<or> hashalg self = Some ''''")
  case True
  then show ?thesis
    using assms(1,2) by (simp add: bottom_text_plain newline_def)
next
  case False
  then obtain l where l: "hashalg self = Some l" "int (length l) + 2 \<le> w" "newline \<notin> set l"
    using assms(3) by blast
  have n: "newline \<notin> set (center (''['' @ l @ '']'') w (CHR ''-''))"
    using l(3) by (intro center_no_newline) (simp_all add: newline_def)
  have len: "int (length (center (''['' @ l @ '']'') w (CHR ''-''))) = w"
    using l(2) by (intro center_length) simp
  show ?thesis
    using False l(1) n len assms(1) by (simp add: bottom_text_def newline_def)
qed

lemma bottom_text_overflow:
  assumes "room_size self = (w, h)" "hashalg self = Some l" "l \<noteq> []"
    and "w < int (length l) + 2" "newline \<notin> set l"
  shows "bottom_text self = ''+['' @ l @ '']+''" "newline \<notin> set (bottom_text self)"
proof -
  have "center (''['' @ l @ '']'') w (CHR ''-'') = ''['' @ l @ '']''"
    using assms(4) by (intro center_long) simp
  then show b: "bottom_text self = ''+['' @ l @ '']+''"
    using assms(1) by (simp add: bottom_text_label [OF assms(2,3)])
  show "newline \<notin> set (bottom_text self)"
    unfolding b using assms(5) by (simp add: newline_def)
qed

lemma bottom_text_broken:
  assumes "hashalg self = Some l" "newline \<in> set l"
  shows "2 \<le> length (split_lines (bottom_text self))"
proof -
  have l: "l \<noteq> []"
    using assms(2) by auto
  have "newline \<in> set (''['' @ l @ '']'')"
    using assms(2) by simp
  then have "newline \<in> set (center (''['' @ l @ '']'') (fst (room_size self)) (CHR ''-''))"
    using set_center by blast
  then have "newline \<in> set (bottom_text self)"
    by (simp add: bottom_text_label [OF assms(1) l])
  then show ?thesis
    by (rule split_lines_newline)
qed

text \<open>
  C7, amended: in a room at least 1 wide and 1 high, for every counter, the top border is
  a plus, width dashes and a plus. With no label (none or the empty string) or with a
  label that has no line break and fits with its brackets in the width, the text has
  exactly height + 2 lines of exactly width + 2 characters each, and without a label the
  bottom border equals the top border. With a label that has no line break and does not
  fit, the text still has height + 2 lines, and the bottom line is the label in its
  brackets between two plus signs, length of the label + 4 characters, which is more than
  width + 2. With a label that has a line break the text has more than height + 2 lines.
\<close>

theorem display_lines:
  assumes "room_size self = (w, h)" "1 \<le> w" "1 \<le> h"
  shows "hd (split_lines (display self room)) = ''+'' @ replicate (nat w) (CHR ''-'') @ ''+''
         \<and> (hashalg self = None \<or> hashalg self = Some ''''
              \<or> (\<exists>l. hashalg self = Some l \<and> int (length l) + 2 \<le> w \<and> newline \<notin> set l) \<longrightarrow>
              int (length (split_lines (display self room))) = h + 2
              \<and> (\<forall>l \<in> set (split_lines (display self room)). int (length l) = w + 2)
              \<and> (hashalg self = None \<or> hashalg self = Some '''' \<longrightarrow>
                   last (split_lines (display self room))
                     = ''+'' @ replicate (nat w) (CHR ''-'') @ ''+''))
         \<and> (\<forall>l. hashalg self = Some l \<and> l \<noteq> [] \<and> w < int (length l) + 2 \<and> newline \<notin> set l \<longrightarrow>
              int (length (split_lines (display self room))) = h + 2
              \<and> last (split_lines (display self room)) = ''+['' @ l @ '']+''
              \<and> int (length (last (split_lines (display self room)))) = int (length l) + 4
              \<and> w + 2 < int (length (last (split_lines (display self room)))))
         \<and> (\<forall>l. hashalg self = Some l \<and> newline \<in> set l \<longrightarrow>
              h + 2 < int (length (split_lines (display self room))))"
proof -
  let ?top = "''+'' @ replicate (nat w) (CHR ''-'') @ ''+''"
  have all: "split_lines (display self room)
               = ?top # map (row_text room w) [0..h - 1] @ split_lines (bottom_text self)"
    using assms(1) by (simp add: split_lines_display)
  have top: "hd (split_lines (display self room)) = ?top"
    unfolding all by simp
  have fits: "int (length (split_lines (display self room))) = h + 2
              \<and> (\<forall>l \<in> set (split_lines (display self room)). int (length l) = w + 2)
              \<and> (hashalg self = None \<or> hashalg self = Some '''' \<longrightarrow>
                   last (split_lines (display self room)) = ?top)"
    if c: "hashalg self = None \<or> hashalg self = Some ''''
           \<or> (\<exists>l. hashalg self = Some l \<and> int (length l) + 2 \<le> w \<and> newline \<notin> set l)"
  proof -
    have b: "newline \<notin> set (bottom_text self)" "int (length (bottom_text self)) = w + 2"
      using bottom_text_ok [OF assms(1) _ c] assms(2) by simp_all
    have ls: "split_lines (display self room)
                = ?top # map (row_text room w) [0..h - 1] @ [bottom_text self]"
      unfolding all by (simp add: split_lines_no_newline [OF b(1)])
    have rows: "int (length (row_text room w y)) = w + 2" for y
      using assms(2) by (simp add: row_text_def)
    show ?thesis
      unfolding ls using assms(1,2,3) b(2) rows
      by (auto simp: bottom_text_plain)
  qed
  have over: "int (length (split_lines (display self room))) = h + 2
              \<and> last (split_lines (display self room)) = ''+['' @ l @ '']+''
              \<and> int (length (last (split_lines (display self room)))) = int (length l) + 4
              \<and> w + 2 < int (length (last (split_lines (display self room))))"
    if c: "hashalg self = Some l \<and> l \<noteq> [] \<and> w < int (length l) + 2 \<and> newline \<notin> set l" for l
  proof -
    have b: "bottom_text self = ''+['' @ l @ '']+''" "newline \<notin> set (bottom_text self)"
      using bottom_text_overflow [OF assms(1), of l] c by simp_all
    have sl: "split_lines (bottom_text self) = [bottom_text self]"
      using b(2) by (rule split_lines_no_newline)
    have ls: "split_lines (display self room)
                = ?top # map (row_text room w) [0..h - 1] @ [''+['' @ l @ '']+'']"
      unfolding all sl by (simp add: b(1))
    show ?thesis
      unfolding ls using assms(3) c by simp
  qed
  have broken: "h + 2 < int (length (split_lines (display self room)))"
    if c: "hashalg self = Some l \<and> newline \<in> set l" for l
  proof -
    have "2 \<le> length (split_lines (bottom_text self))"
      using c by (intro bottom_text_broken [of self l]) simp_all
    then show ?thesis
      unfolding all using assms(3) by simp
  qed
  show ?thesis
    using top fits over broken by blast
qed

theorem display_lines_witness:
  "room_size scenario_art = (17, 9) \<and> (1::int) \<le> 17 \<and> (1::int) \<le> 9
   \<and> hashalg scenario_art = None
   \<and> int (length (split_lines (display scenario_art Map.empty))) = 9 + 2
   \<and> hd (split_lines (display scenario_art Map.empty)) = ''+-----------------+''
   \<and> last (split_lines (display scenario_art Map.empty)) = ''+-----------------+''
   \<and> room_size labelled_art = (17, 9) \<and> hashalg labelled_art = Some ''ssh-ed25519-sha256''
   \<and> ''ssh-ed25519-sha256'' \<noteq> [] \<and> (17::int) < int (length ''ssh-ed25519-sha256'') + 2
   \<and> newline \<notin> set ''ssh-ed25519-sha256''
   \<and> int (length (split_lines (display labelled_art Map.empty))) = 9 + 2
   \<and> last (split_lines (display labelled_art Map.empty)) = ''+[ssh-ed25519-sha256]+''
   \<and> room_size broken_art = (17, 9) \<and> hashalg broken_art = Some [CHR ''a'', newline, CHR ''b'']
   \<and> newline \<in> set [CHR ''a'', newline, CHR ''b'']
   \<and> (9::int) + 2 < int (length (split_lines (display broken_art Map.empty)))"
proof -
  have r: "room_size scenario_art = (17, 9)" and h: "hashalg scenario_art = None"
    by (simp_all add: scenario_art_def DEFAULT_ROOM_SIZE_def)
  have e: "replicate 17 (CHR ''-'') = ''-----------------''"
    by code_simp
  have plain: "int (length (split_lines (display scenario_art Map.empty))) = 9 + 2
     \<and> hd (split_lines (display scenario_art Map.empty)) = ''+-----------------+''
     \<and> last (split_lines (display scenario_art Map.empty)) = ''+-----------------+''"
    using display_lines [OF r, of Map.empty] h by (simp add: e)
  have rl: "room_size labelled_art = (17, 9)"
    and hl: "hashalg labelled_art = Some ''ssh-ed25519-sha256''"
    by (simp_all add: labelled_art_def DEFAULT_ROOM_SIZE_def)
  have cl: "''ssh-ed25519-sha256'' \<noteq> []" "(17::int) < int (length ''ssh-ed25519-sha256'') + 2"
    "newline \<notin> set ''ssh-ed25519-sha256''"
    by (simp_all add: newline_def)
  have long: "int (length (split_lines (display labelled_art Map.empty))) = 9 + 2
     \<and> last (split_lines (display labelled_art Map.empty)) = ''+[ssh-ed25519-sha256]+''"
    using display_lines [OF rl, of Map.empty] hl cl by simp
  have rb: "room_size broken_art = (17, 9)"
    and hb: "hashalg broken_art = Some [CHR ''a'', newline, CHR ''b'']"
    by (simp_all add: broken_art_def DEFAULT_ROOM_SIZE_def)
  have cb: "newline \<in> set [CHR ''a'', newline, CHR ''b'']"
    by simp
  have brk: "(9::int) + 2 < int (length (split_lines (display broken_art Map.empty)))"
    using display_lines [OF rb, of Map.empty] hb cb by simp
  show ?thesis
    using r h plain rl hl cl long rb hb cb brk by simp
qed

subsection \<open>Construction\<close>

text \<open>
  C6 as stated fails: the constructor has no check. A room of width 0 and a start outside
  the room are both accepted.
\<close>

theorem init_counterexample:
  "init None (0, 9) None = Inr \<lparr> hashalg = None, room_size = (0, 9), start = (0, 4) \<rparr>
   \<and> init None (17, 9) (Some (40, 40)) = Inr \<lparr> hashalg = None, room_size = (17, 9), start = (40, 40) \<rparr>"
  by (simp add: init_def)

text \<open>
  C6, amended: construction never fails. For every label, every pair of dimensions and
  every start, given or not, it returns the object that holds them, the start being the
  given one or else the floor of half of each dimension.
\<close>

theorem init_never_fails:
  "\<not> isl (init label dims st)
   \<and> init label dims st
     = Inr \<lparr> hashalg = label, room_size = dims,
             start = (case st of Some s \<Rightarrow> s | None \<Rightarrow> (fst dims div 2, snd dims div 2)) \<rparr>"
  by (simp add: init_def)

subsection \<open>Characters and integer parsing\<close>

lemma hex_digit_values:
  "is_hex_digit c \<Longrightarrow> digit_value c = hex_digit_value c \<and> digit_value c < 16"
  unfolding is_hex_digit_def
  by (auto simp: digit_value_def hex_digit_value_def)

lemma digit_value_hex:
  assumes "digit_value c < 16"
  shows "is_hex_digit c"
proof -
  define n where "n = (of_char c :: nat)"
  have c: "c = char_of n"
    by (simp add: n_def)
  have "(48 \<le> n \<and> n \<le> 57) \<or> (97 \<le> n \<and> n \<le> 102) \<or> (65 \<le> n \<and> n \<le> 70)"
    using assms unfolding digit_value_def n_def [symmetric] Let_def
    by (auto split: if_splits)
  then have "n = 48 \<or> n = 49 \<or> n = 50 \<or> n = 51 \<or> n = 52 \<or> n = 53 \<or> n = 54 \<or> n = 55
             \<or> n = 56 \<or> n = 57 \<or> n = 97 \<or> n = 98 \<or> n = 99 \<or> n = 100 \<or> n = 101
             \<or> n = 102 \<or> n = 65 \<or> n = 66 \<or> n = 67 \<or> n = 68 \<or> n = 69 \<or> n = 70"
    by arith
  then have "\<exists>d \<in> set ''0123456789abcdefABCDEF''. (of_char d :: nat) = n"
    by (elim disjE) simp_all
  then obtain d where d: "d \<in> set ''0123456789abcdefABCDEF''" "(of_char d :: nat) = of_char c"
    unfolding n_def by blast
  from d(2) have "d = c"
    by (simp only: of_char_eq_iff)
  with d(1) show ?thesis
    by (simp only: is_hex_digit_def)
qed

lemma digit_value_iff: "digit_value c < 16 \<longleftrightarrow> is_hex_digit c"
  using digit_value_hex hex_digit_values by blast

lemma space_class:
  "py_isspace c \<Longrightarrow> \<not> is_hex_digit c \<and> c \<noteq> CHR ''+'' \<and> c \<noteq> CHR ''-'' \<and> c \<noteq> CHR ''_''"
  unfolding py_isspace_def is_hex_digit_def by auto

lemma hex_class:
  "is_hex_digit c \<Longrightarrow> c \<noteq> CHR ''+'' \<and> c \<noteq> CHR ''-'' \<and> c \<noteq> CHR ''_'' \<and> c \<noteq> CHR ''x'' \<and> c \<noteq> CHR ''X''"
  unfolding is_hex_digit_def by auto

lemma hex_facts:
  assumes "is_hex_digit c"
  shows "\<not> py_isspace c" "c \<noteq> CHR ''+''" "c \<noteq> CHR ''-''" "c \<noteq> CHR ''_''"
    "c \<noteq> CHR ''x''" "c \<noteq> CHR ''X''" "digit_value c < 16"
  using assms hex_class [of c] space_class [of c] hex_digit_values [of c] by blast+

lemma space_not_x: "py_isspace c \<Longrightarrow> c \<noteq> CHR ''x'' \<and> c \<noteq> CHR ''X''"
  unfolding py_isspace_def by auto

lemma space_facts:
  assumes "py_isspace c"
  shows "c \<noteq> CHR ''+''" "c \<noteq> CHR ''-''" "c \<noteq> CHR ''_''" "\<not> digit_value c < 16"
    "c \<noteq> CHR ''x''" "c \<noteq> CHR ''X''"
  using assms space_class [of c] digit_value_iff [of c] space_not_x [of c] by blast+

lemma sign_facts:
  "\<not> py_isspace (CHR ''+'')" "\<not> py_isspace (CHR ''-'')" "\<not> py_isspace (CHR ''_'')"
  "\<not> digit_value (CHR ''+'') < 16" "\<not> digit_value (CHR ''-'') < 16"
  by (simp_all add: py_isspace_def digit_value_def)

lemma int16_two_hex:
  assumes "is_hex_digit a" "is_hex_digit b"
  shows "int16 [a, b] = Inr (int (16 * digit_value a + digit_value b))"
  by (simp add: int16_def hex_facts [OF assms(1)] hex_facts [OF assms(2)])

lemma int16_space_hex:
  assumes "py_isspace a" "is_hex_digit b"
  shows "int16 [a, b] = Inr (int (digit_value b))"
  by (simp add: int16_def assms(1) hex_facts [OF assms(2)])

lemma int16_plus_hex:
  assumes "is_hex_digit b"
  shows "int16 [CHR ''+'', b] = Inr (int (digit_value b))"
  by (simp add: int16_def sign_facts hex_facts [OF assms])

lemma int16_minus_hex:
  assumes "is_hex_digit b"
  shows "int16 [CHR ''-'', b] = Inr (- int (digit_value b))"
  by (simp add: int16_def sign_facts hex_facts [OF assms])

lemma int16_hex_space:
  assumes "is_hex_digit a" "py_isspace b"
  shows "int16 [a, b] = Inr (int (digit_value a))"
  by (simp add: int16_def assms(2) hex_facts [OF assms(1)] space_facts [OF assms(2)])

lemma int16_other:
  assumes n1: "\<not> (is_hex_digit a \<and> is_hex_digit b)"
    and n2: "\<not> ((py_isspace a \<or> a = CHR ''+'' \<or> a = CHR ''-'') \<and> is_hex_digit b)"
    and n3: "\<not> (is_hex_digit a \<and> py_isspace b)"
  shows "int16 [a, b] = Inl ValueError"
proof -
  consider (space) "py_isspace a" | (sign) "a = CHR ''+'' \<or> a = CHR ''-''"
    | (under) "a = CHR ''_''" | (hex) "is_hex_digit a"
    | (other) "\<not> py_isspace a" "a \<noteq> CHR ''+''" "a \<noteq> CHR ''-''" "a \<noteq> CHR ''_''"
        "\<not> is_hex_digit a"
    by blast
  then show ?thesis
  proof cases
    case space
    with n2 have b: "\<not> digit_value b < 16"
      by (simp add: digit_value_iff)
    show ?thesis
      using space b by (simp add: int16_def)
  next
    case sign
    with n2 have b: "\<not> digit_value b < 16"
      by (auto simp: digit_value_iff)
    show ?thesis
      using sign b by (auto simp: int16_def sign_facts)
  next
    case under
    then show ?thesis
      by (simp add: int16_def sign_facts)
  next
    case hex
    with n1 n3 have b: "\<not> digit_value b < 16" "\<not> py_isspace b"
      by (simp_all add: digit_value_iff)
    show ?thesis
      using b by (simp add: int16_def hex_facts [OF hex])
  next
    case other
    then have a: "\<not> digit_value a < 16"
      by (simp add: digit_value_iff)
    show ?thesis
      using other(1-4) a by (simp add: int16_def)
  qed
qed

subsection \<open>Binary rendering of a byte\<close>

lemma map_err_all_Inr: "(\<And>x. x \<in> set xs \<Longrightarrow> f x = Inr (g x)) \<Longrightarrow> map_err f xs = Inr (map g xs)"
  by (induction xs) simp_all

lemma isl_map_err: "isl (map_err f xs) \<longleftrightarrow> (\<exists>x \<in> set xs. isl (f x))"
  by (induction xs) (auto split: sum.splits)

lemma bits_msb_Suc: "bits_msb (Suc k) n = bits_msb k (n div 2) @ [bit_char (odd n)]"
proof -
  have "[0..<Suc k] = 0 # map Suc [0..<k]"
    by (simp add: upt_conv_Cons map_Suc_upt del: upt_Suc)
  then have "rev [0..<Suc k] = map Suc (rev [0..<k]) @ [0]"
    by (simp add: rev_map del: upt_Suc)
  then show ?thesis
    unfolding bits_msb_def by (simp add: comp_def div_mult2_eq del: upt_Suc)
qed

lemma bits_msb_zero: "bits_msb k 0 = replicate k (CHR ''0'')"
proof (induction k)
  case 0
  show ?case by (simp add: bits_msb_def)
next
  case (Suc k)
  then show ?case
    by (simp add: bits_msb_Suc bit_char_def replicate_append_same)
qed

lemma bin_digits_small: "n < 2 \<Longrightarrow> bin_digits n = [bit_char (odd n)]"
  by (subst bin_digits.simps) (auto simp: bit_char_def)

lemma bin_digits_large: "\<not> n < 2 \<Longrightarrow> bin_digits n = bin_digits (n div 2) @ [bit_char (odd n)]"
  by (subst bin_digits.simps) (auto simp: bit_char_def)

lemma bin_digits_pad:
  "n < 2 ^ k \<Longrightarrow> 0 < k \<Longrightarrow>
   length (bin_digits n) \<le> k
   \<and> replicate (k - length (bin_digits n)) (CHR ''0'') @ bin_digits n = bits_msb k n"
proof (induction k arbitrary: n)
  case 0
  then show ?case by simp
next
  case (Suc k)
  show ?case
  proof (cases "n < 2")
    case True
    then have "n div 2 = 0" by simp
    then show ?thesis
      by (simp add: bin_digits_small [OF True] bits_msb_Suc bits_msb_zero)
  next
    case False
    have k: "0 < k"
      using False Suc.prems(1) by (cases k) simp_all
    have "n div 2 < 2 ^ k"
      using Suc.prems(1) by simp
    from Suc.IH [OF this k]
    have ih: "length (bin_digits (n div 2)) \<le> k"
      "replicate (k - length (bin_digits (n div 2))) (CHR ''0'') @ bin_digits (n div 2)
         = bits_msb k (n div 2)"
      by simp_all
    show ?thesis
      using ih by (simp add: bin_digits_large [OF False] bits_msb_Suc Suc_diff_le)
  qed
qed

lemma bin_digits_first: "\<exists>c cs. bin_digits n = c # cs \<and> c \<noteq> CHR ''+'' \<and> c \<noteq> CHR ''-''"
proof (induction n rule: bin_digits.induct)
  case (1 n)
  show ?case
  proof (cases "n < 2")
    case True
    then show ?thesis
      by (simp add: bin_digits_small bit_char_def)
  next
    case False
    with 1 show ?thesis
      by (auto simp: bin_digits_large [OF False])
  qed
qed

lemma zfill_bin_digits:
  assumes "n < 2 ^ k" "0 < k"
  shows "zfill k (bin_digits n) = bits_msb k n"
proof -
  obtain c cs where c: "bin_digits n = c # cs" "c \<noteq> CHR ''+''" "c \<noteq> CHR ''-''"
    using bin_digits_first by blast
  have p: "length (bin_digits n) \<le> k"
    "replicate (k - length (bin_digits n)) (CHR ''0'') @ bin_digits n = bits_msb k n"
    using bin_digits_pad [OF assms] by simp_all
  show ?thesis
  proof (cases "k \<le> length (bin_digits n)")
    case True
    with p show ?thesis
      by (simp add: zfill_def)
  next
    case False
    then show ?thesis
      using p(2) c by (simp add: zfill_def)
  qed
qed

lemma rev_upt_8: "rev [0..<8] = [7, 6, 5, 4, 3, 2, 1, 0]"
  by code_simp

lemma byte_bits_msb: "map bit_char (byte_bits n) = bits_msb 8 n"
  by (simp add: byte_bits_def bits_msb_def rev_upt_8)

lemma bin_byte_string:
  assumes "v < 256"
  shows "zfill 8 (drop 2 (bin (int v))) = map bit_char (byte_bits v)"
  using zfill_bin_digits [of v 8] assms by (simp add: bin_def byte_bits_msb)

lemma direction_of_bits: "direction_of [bit_char h, bit_char l] = Inr (group_move (h, l))"
  by (cases h; cases l) (simp_all add: direction_of_def direction_map_def bit_char_def group_move_def)

lemma slices2_bits:
  "even (length bs) \<Longrightarrow>
   slices2 (map bit_char bs) = map (\<lambda>g. [bit_char (fst g), bit_char (snd g)]) (bit_groups bs)"
  by (induction bs rule: bit_groups.induct) simp_all

lemma map_err_map: "map_err f (map h xs) = map_err (\<lambda>x. f (h x)) xs"
  by (induction xs) (simp_all split: sum.splits)

lemma byte_directions:
  assumes "v < 256"
  shows "map_err direction_of (rev (slices2 (zfill 8 (drop 2 (bin (int v))))))
           = Inr (map group_move (rev (bit_groups (byte_bits v))))"
proof -
  have e: "even (length (byte_bits v))"
    by (simp add: byte_bits_def)
  have "map_err direction_of (map (\<lambda>g. [bit_char (fst g), bit_char (snd g)]) (rev (bit_groups (byte_bits v))))
          = Inr (map group_move (rev (bit_groups (byte_bits v))))"
    unfolding map_err_map
    by (rule map_err_all_Inr) (simp add: direction_of_bits)
  then show ?thesis
    by (simp add: bin_byte_string [OF assms] slices2_bits [OF e] rev_map)
qed

subsection \<open>The decoder\<close>


lemma map_err_Inr_D:
  "map_err f xs = Inr ys \<Longrightarrow> ys = map (\<lambda>x. projr (f x)) xs \<and> (\<forall>x \<in> set xs. \<not> isl (f x))"
  by (induction xs arbitrary: ys) (auto split: sum.splits)

lemma isl_map_err_concat:
  "isl (map_err f (concat xss)) \<longleftrightarrow> (\<exists>xs \<in> set xss. isl (map_err f xs))"
  by (auto simp: isl_map_err)

text \<open>What the two loops of the decoder do with one slice.\<close>

lemma slices2_even: "even (length s) \<Longrightarrow> p \<in> set (slices2 s) \<Longrightarrow> \<exists>a b. p = [a, b]"
  by (induction s rule: slices2.induct) auto

lemma slices2_subset: "p \<in> set (slices2 s) \<Longrightarrow> set p \<subseteq> set s"
  by (induction s rule: slices2.induct) auto

lemma hex_value_bound: "is_hex_digit a \<Longrightarrow> is_hex_digit b \<Longrightarrow> 16 * digit_value a + digit_value b < 256"
  using hex_digit_values [of a] hex_digit_values [of b] by simp







subsection \<open>Failure of the decoder\<close>

lemma negative_byte_fails:
  "\<forall>v \<in> set [1, 2, 3, 4, 5, 6, 7, 8, 9, 10, 11, 12, 13, 14, 15 :: nat].
     map_err direction_of (rev (slices2 (zfill 8 (drop 2 (bin (- int v)))))) = Inl KeyError"
  by code_simp

lemma hex_value_zero: "is_hex_digit b \<Longrightarrow> digit_value b = 0 \<Longrightarrow> b = CHR ''0''"
  unfolding is_hex_digit_def by (auto simp: digit_value_def)

lemma small_value_ok:
  assumes "int16 p = Inr (int v)" "v < 256"
  shows "\<not> isl (pair_dirs p)"
  using byte_directions [OF assms(2)] by (simp add: pair_dirs_def bin_byte_def assms(1))

lemma pair_dirs_accepted:
  "isl (pair_dirs [a, b]) \<longleftrightarrow> \<not> accepted_pair [a, b]"
proof (cases "accepted_pair [a, b]")
  case True
  then consider (hh) "is_hex_digit a" "is_hex_digit b"
    | (sh) "py_isspace a" "is_hex_digit b"
    | (hs) "is_hex_digit a" "py_isspace b"
    | (ph) "a = CHR ''+''" "is_hex_digit b"
    | (mz) "a = CHR ''-''" "b = CHR ''0''"
    by (auto simp: accepted_pair_def)
  then have "\<not> isl (pair_dirs [a, b])"
  proof cases
    case hh
    show ?thesis
      using int16_two_hex [OF hh] hex_value_bound [OF hh] by (rule small_value_ok)
  next
    case sh
    show ?thesis
      using int16_space_hex [OF sh] hex_digit_values [OF sh(2)]
      by (intro small_value_ok [where v = "digit_value b"]) simp_all
  next
    case hs
    show ?thesis
      using int16_hex_space [OF hs] hex_digit_values [OF hs(1)]
      by (intro small_value_ok [where v = "digit_value a"]) simp_all
  next
    case ph
    show ?thesis
      using int16_plus_hex [OF ph(2)] hex_digit_values [OF ph(2)] ph(1)
      by (intro small_value_ok [where v = "digit_value b"]) simp_all
  next
    case mz
    have z: "is_hex_digit (CHR ''0'')" "digit_value (CHR ''0'') = 0"
      by (simp_all add: is_hex_digit_def digit_value_def)
    show ?thesis
      using int16_minus_hex [OF z(1)] mz
      by (intro small_value_ok [where v = 0]) (simp_all add: z(2))
  qed
  with True show ?thesis by simp
next
  case False
  have "isl (pair_dirs [a, b])"
  proof (cases "a = CHR ''-'' \<and> is_hex_digit b")
    case True
    then have b: "is_hex_digit b" and a: "a = CHR ''-''" by simp_all
    have "b \<noteq> CHR ''0''"
      using False a by (simp add: accepted_pair_def)
    then have "digit_value b \<noteq> 0"
      using hex_value_zero [OF b] by blast
    then have "digit_value b \<in> set [1, 2, 3, 4, 5, 6, 7, 8, 9, 10, 11, 12, 13, 14, 15 :: nat]"
      using hex_digit_values [OF b] by (simp del: One_nat_def) arith
    then have "map_err direction_of (rev (slices2 (zfill 8 (drop 2 (bin (- int (digit_value b)))))))
                 = Inl KeyError"
      using negative_byte_fails by blast
    then show ?thesis
      by (simp add: pair_dirs_def bin_byte_def a int16_minus_hex [OF b])
  next
    case n: False
    have "int16 [a, b] = Inl ValueError"
      using False n by (intro int16_other) (auto simp: accepted_pair_def)
    then show ?thesis
      by (simp add: pair_dirs_def bin_byte_def)
  qed
  with False show ?thesis by simp
qed

lemma isl_hex_to_dirs_even:
  assumes "even (length s)"
  shows "isl (hex_to_dirs s) \<longleftrightarrow> (\<exists>p \<in> set (slices2 s). isl (pair_dirs p))"
proof (cases "map_err bin_byte (slices2 s)")
  case (Inl e)
  then have "isl (map_err bin_byte (slices2 s))" by simp
  then obtain p where "p \<in> set (slices2 s)" "isl (bin_byte p)"
    unfolding isl_map_err by blast
  moreover from this have "isl (pair_dirs p)"
    by (cases "bin_byte p") (simp_all add: pair_dirs_def)
  ultimately have "\<exists>p \<in> set (slices2 s). isl (pair_dirs p)"
    by blast
  then show ?thesis
    using assms Inl by (simp add: hex_to_dirs_def)
next
  case (Inr bytes)
  from map_err_Inr_D [OF this]
  have bytes: "bytes = map (\<lambda>p. projr (bin_byte p)) (slices2 s)"
    and ok: "\<forall>p \<in> set (slices2 s). \<not> isl (bin_byte p)"
    by simp_all
  have pd: "pair_dirs p = map_err direction_of (rev (slices2 (projr (bin_byte p))))"
    if "p \<in> set (slices2 s)" for p
    using ok that by (cases "bin_byte p") (auto simp: pair_dirs_def)
  have "isl (hex_to_dirs s)
          \<longleftrightarrow> (\<exists>p \<in> set (slices2 s). isl (map_err direction_of (rev (slices2 (projr (bin_byte p))))))"
    using assms Inr unfolding bytes
    by (simp add: hex_to_dirs_def Let_def isl_map_err_concat)
  then show ?thesis
    using pd by auto
qed

text \<open>
  C5 as stated fails: a space followed by a hex digit has even length and a character that
  is no hex digit, and it decodes, to the moves of the byte \<open>0a\<close>.
\<close>

theorem hex_to_dirs_failure_counterexample:
  "even (length '' a'') \<and> \<not> is_hex_digit (CHR '' '')
   \<and> hex_to_dirs '' a'' = Inr [SW, SW, NW, NW]"
  by code_simp

text \<open>
  C5, amended: decoding fails exactly when the length is odd (the assertion) or some
  two-character slice is none of: two hex digits, a hex digit after a whitespace character
  or a plus sign, a hex digit before a whitespace character, and \<open>-0\<close>. So every string
  of even length made of hex digits decodes. A failure of the decoder is the failure of
  \<open>get_room\<close> and of the call: no move and no counter is produced.
\<close>

theorem hex_to_dirs_failure:
  "(isl (hex_to_dirs s) \<longleftrightarrow> odd (length s) \<or> (\<exists>p \<in> set (slices2 s). \<not> accepted_pair p))
   \<and> (odd (length s) \<longrightarrow> hex_to_dirs s = Inl AssertionError)
   \<and> (even (length s) \<and> (\<forall>c \<in> set s. is_hex_digit c) \<longrightarrow> \<not> isl (hex_to_dirs s))
   \<and> (\<forall>e. hex_to_dirs s = Inl e \<longrightarrow> get_room self s = Inl e \<and> call self s = Inl e)"
proof -
  have odd: "odd (length s) \<Longrightarrow> hex_to_dirs s = Inl AssertionError"
    by (simp add: hex_to_dirs_def odd_iff_mod_2_eq_one)
  have even: "isl (hex_to_dirs s) \<longleftrightarrow> (\<exists>p \<in> set (slices2 s). \<not> accepted_pair p)"
    if e: "even (length s)"
  proof -
    have "isl (pair_dirs p) \<longleftrightarrow> \<not> accepted_pair p" if "p \<in> set (slices2 s)" for p
      using slices2_even [OF e that] pair_dirs_accepted by auto
    then show ?thesis
      using isl_hex_to_dirs_even [OF e] by auto
  qed
  have hex: "\<not> isl (hex_to_dirs s)" if e: "even (length s)" and h: "\<forall>c \<in> set s. is_hex_digit c"
  proof -
    have "accepted_pair p" if p: "p \<in> set (slices2 s)" for p
    proof -
      obtain a b where ab: "p = [a, b]"
        using slices2_even [OF e p] by blast
      have "is_hex_digit a" "is_hex_digit b"
        using slices2_subset [OF p] h ab by auto
      then show ?thesis
        by (simp add: ab accepted_pair_def)
    qed
    then show ?thesis
      using even [OF e] by blast
  qed
  have err: "hex_to_dirs s = Inl e \<Longrightarrow> get_room self s = Inl e \<and> call self s = Inl e" for e
    by (simp add: get_room_error call_def)
  show ?thesis
    using odd even hex err by (cases "even (length s)") auto
qed

theorem hex_to_dirs_failure_witness:
  "odd (length ''abc'') \<and> hex_to_dirs ''abc'' = Inl AssertionError
   \<and> get_room scenario_art ''abc'' = Inl AssertionError
   \<and> call scenario_art ''abc'' = Inl AssertionError"
proof -
  have o: "odd (length ''abc'')"
    by simp
  show ?thesis
    using hex_to_dirs_failure [of "''abc''" scenario_art] o by simp
qed

end
